theory Spec2Isabelle
  imports Complex_Main "HOL-Library.Word" "HOL-Library.Monad_Syntax"
begin

section \<open>The escape-time evaluator\<close>

text \<open>
  Python floats are read as real numbers and Python's \<open>complex\<close> as the complex numbers
  over them: rounding is not modelled. The iteration budget \<open>MAX_ITER\<close> is a Python
  number: it starts as the integer 15, and the true division in \<open>ChangeRez\<close> makes it a
  float, so the model gives it the type \<open>real\<close>.

  \<^verbatim>\<open>
  def mandelbrot(c):
      mz,n = 0,0
      while abs(mz) <= 2 and n <= MAX_ITER:
          mz = mz*mz + c
          n += 1
      return n
  \<close>
  The loop is the recursive function \<open>mandelbrot_loop\<close> on the loop variables
  \<open>(mz, n)\<close>; it terminates because \<open>n\<close> grows towards \<open>MAX_ITER\<close>.
\<close>

function mandelbrot_loop :: "real \<Rightarrow> complex \<Rightarrow> complex \<Rightarrow> nat \<Rightarrow> nat" where
  "mandelbrot_loop MAX_ITER c mz n =
     (if cmod mz \<le> 2 \<and> real n \<le> MAX_ITER
      then mandelbrot_loop MAX_ITER c (mz * mz + c) (n + 1)
      else n)"
  by pat_completeness auto
termination
proof (relation "measure (\<lambda>(MAX_ITER, c, mz, n). nat (\<lfloor>MAX_ITER\<rfloor> + 1 - int n))")
  show "wf (measure (\<lambda>(MAX_ITER, c, mz, n). nat (\<lfloor>MAX_ITER\<rfloor> + 1 - int n)))"
    by simp
next
  fix MAX_ITER :: real and c mz :: complex and n :: nat
  assume "cmod mz \<le> 2 \<and> real n \<le> MAX_ITER"
  then have "int n \<le> \<lfloor>MAX_ITER\<rfloor>"
    by (simp add: le_floor_iff)
  then show "((MAX_ITER, c, mz * mz + c, n + 1), (MAX_ITER, c, mz, n))
      \<in> measure (\<lambda>(MAX_ITER, c, mz, n). nat (\<lfloor>MAX_ITER\<rfloor> + 1 - int n))"
    by simp
qed

declare mandelbrot_loop.simps [simp del]

definition mandelbrot :: "real \<Rightarrow> complex \<Rightarrow> nat" where
  "mandelbrot MAX_ITER c = mandelbrot_loop MAX_ITER c 0 0"


section \<open>The module's global state\<close>

text \<open>
  The module keeps its state in global variables. The record below holds the ones the
  modelled routines read or write. \<open>WIDTH\<close> and \<open>HEIGHT\<close> come from
  \<open>display.get_bounds()\<close> (240 by 240 on the Pico Explorer) and never change; they are the
  parameters \<open>W\<close> and \<open>H\<close> of the routines that use them. A Python \<open>bytearray\<close> is a list
  of bytes. The cursor's \<open>top\<close> is named \<open>top_edge\<close> here.
\<close>

type_synonym byte = "8 word"

record state =
  MAX_ITER :: real
  realStart :: real
  realEnd :: real
  imStart :: real
  imEnd :: real
  isHiRez :: bool
  left0 :: int
  right0 :: int
  top0 :: int
  bottom0 :: int
  left :: int
  right :: int
  top_edge :: int
  bottom :: int
  x0 :: int
  y0 :: int
  z :: int
  newHeight :: int
  newWidth :: int
  buffer :: "byte list"
  top_pix :: "byte list"
  bottom_pix :: "byte list"
  left_pix :: "byte list"
  right_pix :: "byte list"

text \<open>
  The values the module assigns before the first render pass (\<open>isHiRez\<close> is set in
  \<open>Loop\<close>; the cursor centre, zoom and half sizes are unset until the first
  \<open>MoveCursor\<close> and are 0 here).
\<close>

definition init_state :: "int \<Rightarrow> int \<Rightarrow> state" where
  "init_state W H =
     \<lparr> MAX_ITER = 15,
       realStart = - 2.05, realEnd = 0.55, imStart = - 1.2, imEnd = 1.2,
       isHiRez = False,
       left0 = 0, right0 = 0, top0 = 0, bottom0 = 0,
       left = 0, right = 0, top_edge = 0, bottom = 0,
       x0 = 0, y0 = 0, z = 0, newHeight = 0, newWidth = 0,
       buffer = replicate (nat (W * H)) 0,
       top_pix = replicate (nat W) 0, bottom_pix = replicate (nat W) 0,
       left_pix = replicate (nat H) 0, right_pix = replicate (nat H) 0 \<rparr>"


section \<open>The column renderer\<close>

definition pen_colour :: "(nat \<times> nat \<times> nat) list" where
  "pen_colour =
     [(0,0,0),
      (255,0,0), (0,255,0), (0,0,255), (255,255,0), (255,0,255), (0,255,255), (255,255,255),
      (128,0,0), (0,128,0), (0,0,128), (128,128,0), (128,0,128), (0,128,128), (128,128,128)]"

definition MAX_COLOURS :: int where
  "MAX_COLOURS = min 10 (int (length pen_colour))"

text \<open>
  The body of the worker's loop over \<open>y\<close> in \<open>mandelbrotThreadX\<close>: the value it stores in
  \<open>results[y]\<close>.
  \<^verbatim>\<open>
  xx = realStart + (x / WIDTH) * (realEnd - realStart)
  yy = imStart + (y / HEIGHT) * (imEnd - imStart)
  c = complex(xx, yy)
  m = mandelbrot(c)
  colour = int(m - 1) % 15
  \<close>
\<close>

definition thread_colour :: "int \<Rightarrow> int \<Rightarrow> state \<Rightarrow> int \<Rightarrow> int \<Rightarrow> int" where
  "thread_colour W H s x y =
     (let xx = realStart s + (real_of_int x / real_of_int W) * (realEnd s - realStart s);
          yy = imStart s + (real_of_int y / real_of_int H) * (imEnd s - imStart s);
          c = Complex xx yy;
          m = mandelbrot (MAX_ITER s) c
      in (int m - 1) mod 15)"

text \<open>The worker fills \<open>results\<close> for one column; the list is the column it leaves.\<close>

definition mandelbrotThreadX :: "int \<Rightarrow> int \<Rightarrow> state \<Rightarrow> int \<Rightarrow> int list" where
  "mandelbrotThreadX W H s x = map (\<lambda>y. thread_colour W H s x y) [0..H - 1]"

text \<open>
  The body of the coordinator's loop over \<open>y\<close> in \<open>DrawMandelbrotX\<close>, for its own column
  \<open>x1\<close>: the same computation, reduced modulo \<open>MAX_COLOURS\<close>.
\<close>

definition main_colour :: "int \<Rightarrow> int \<Rightarrow> state \<Rightarrow> int \<Rightarrow> int \<Rightarrow> int" where
  "main_colour W H s x1 y =
     (let xx = realStart s + (real_of_int x1 / real_of_int W) * (realEnd s - realStart s);
          yy = imStart s + (real_of_int y / real_of_int H) * (imEnd s - imStart s);
          c = Complex xx yy;
          m = mandelbrot (MAX_ITER s) c
      in (int m - 1) mod MAX_COLOURS)"

text \<open>
  What the coordinator asks of the display during a pass: \<open>Pixel x y i\<close> is
  \<open>display.set_pen(display.create_pen(pen_colour[i][0], pen_colour[i][1], pen_colour[i][2]))\<close>
  followed by \<open>display.pixel(x, y)\<close>, so \<open>i\<close> is an index looked up in \<open>pen_colour\<close>;
  \<open>Update\<close> is \<open>display.update()\<close>.
\<close>

datatype display_op = Pixel int int int | Update

definition main_column :: "int \<Rightarrow> int \<Rightarrow> state \<Rightarrow> int \<Rightarrow> display_op list" where
  "main_column W H s x1 =
     concat (map (\<lambda>y. let colour = main_colour W H s x1 y
                       in if colour > 0 then [Pixel x1 y colour] else [])
                 [0..H - 1])"

definition plot_results :: "int \<Rightarrow> int \<Rightarrow> int list \<Rightarrow> display_op list" where
  "plot_results H x results =
     concat (map (\<lambda>y. if results ! nat y \<noteq> 0 then [Pixel x y (results ! nat y)] else [])
                 [0..H - 1])"

text \<open>
  One pass of \<open>DrawMandelbrotX\<close>. The worker thread started for column \<open>x\<close> runs beside the
  coordinator's column \<open>x + 1\<close>; the coordinator reads \<open>results\<close> only after the ready
  flag, so the worker's column is a value handed over at that point. \<open>range(0, WIDTH, 2)\<close>
  is the list of the even numbers below \<open>WIDTH\<close>.
\<close>

definition draw_pair :: "int \<Rightarrow> int \<Rightarrow> state \<Rightarrow> int \<Rightarrow> display_op list" where
  "draw_pair W H s x =
     (let results = mandelbrotThreadX W H s x;
          x1 = x + 1
      in main_column W H s x1 @ plot_results H x results @
         (if x mod 2 = 0 then [Update] else []))"

definition DrawMandelbrotX :: "int \<Rightarrow> int \<Rightarrow> state \<Rightarrow> display_op list" where
  "DrawMandelbrotX W H s =
     concat (map (draw_pair W H s) (filter (\<lambda>x. x mod 2 = 0) [0..W - 1])) @ [Update]"


text \<open>The number of flushes (\<open>display.update()\<close>) in a sequence of display requests.\<close>

definition updates :: "display_op list \<Rightarrow> nat" where
  "updates ops = length (filter (\<lambda>e. e = Update) ops)"


section \<open>The cursor overlay\<close>

text \<open>
  \<open>int(v)\<close> on a float truncates towards zero.
\<close>

definition py_int :: "real \<Rightarrow> int" where
  "py_int v = (if 0 \<le> v then \<lfloor>v\<rfloor> else \<lceil>v\<rceil>)"

text \<open>
  The three potentiometers: \<open>pot.read_voltage()\<close> is the argument \<open>v\<close>, a voltage
  between 0 and 3.3.
\<close>

definition getCursorX :: "int \<Rightarrow> real \<Rightarrow> int" where
  "getCursorX W v = py_int (v / 3.3 * real_of_int W)"

definition getCursorY :: "int \<Rightarrow> real \<Rightarrow> int" where
  "getCursorY H v = py_int (real_of_int H - (v / 3.3 * real_of_int H))"

definition getZoomLevel :: "int \<Rightarrow> int \<Rightarrow> real \<Rightarrow> int" where
  "getZoomLevel W H v = py_int (v / 3.3 * real_of_int (min H W))"

text \<open>
  The first half of \<open>MoveCursor\<close>: the zoom, the half sizes, the clamped centre and the
  rectangle, from the three voltages.
\<close>

definition read_cursor :: "int \<Rightarrow> int \<Rightarrow> real \<Rightarrow> real \<Rightarrow> real \<Rightarrow> state \<Rightarrow> state" where
  "read_cursor W H vx vy vz s =
     (let zoom = getZoomLevel W H vz;
          nh = py_int (real_of_int zoom / 2);
          nw = py_int ((real_of_int (zoom * W) / real_of_int H) / 2);
          cx = getCursorX W vx;
          cx = max nw cx;
          cx = min cx (W - 1 - nw);
          cy = getCursorY H vy;
          cy = max nh cy;
          cy = min cy (H - 1 - nh)
      in s\<lparr>z := zoom, newHeight := nh, newWidth := nw, x0 := cx, y0 := cy,
            left := cx - nw, right := cx + nw, top_edge := cy - nh, bottom := cy + nh\<rparr>)"

text \<open>
  Indexing a Python sequence of length \<open>n\<close>: an index from \<open>-n\<close> to \<open>-1\<close> counts from the
  end, and an index outside \<open>[-n, n)\<close> raises \<open>IndexError\<close> (\<open>None\<close>).
\<close>

definition py_index :: "nat \<Rightarrow> int \<Rightarrow> nat option" where
  "py_index n i =
     (if 0 \<le> i \<and> i < int n then Some (nat i)
      else if i < 0 \<and> - int n \<le> i then Some (nat (i + int n))
      else None)"

definition py_get :: "'a list \<Rightarrow> int \<Rightarrow> 'a option" where
  "py_get xs i = map_option (\<lambda>k. xs ! k) (py_index (length xs) i)"

definition py_set :: "'a list \<Rightarrow> int \<Rightarrow> 'a \<Rightarrow> 'a list option" where
  "py_set xs i v = map_option (\<lambda>k. xs[k := v]) (py_index (length xs) i)"

text \<open>A \<open>for\<close> loop over a list of indices whose body may raise.\<close>

fun for_each :: "int list \<Rightarrow> (int \<Rightarrow> 's \<Rightarrow> 's option) \<Rightarrow> 's \<Rightarrow> 's option" where
  "for_each [] body s = Some s"
| "for_each (i # is) body s = (case body i s of None \<Rightarrow> None | Some s' \<Rightarrow> for_each is body s')"

text \<open>
  Restoring the previous outline.
  \<^verbatim>\<open>
  for i in range(right0 - left0 +1):
      buffer[left0 + i -1 + (top0 * WIDTH)] = top_pix[i]
      buffer[left0 + i + (bottom0 * WIDTH)] = bottom_pix[i]
  for i in range(bottom0 - top0 +1):
      buffer[left0 + ((top0 + i) * WIDTH)] = left_pix[i]
      buffer[right0 + ((top0 + i -1) * WIDTH)] = right_pix[i]
  \<close>
\<close>

definition restore_row :: "int \<Rightarrow> int \<Rightarrow> state \<Rightarrow> state option" where
  "restore_row W i s =
     do { v \<leftarrow> py_get (top_pix s) i;
          b \<leftarrow> py_set (buffer s) (left0 s + i - 1 + (top0 s * W)) v;
          v' \<leftarrow> py_get (bottom_pix s) i;
          b' \<leftarrow> py_set b (left0 s + i + (bottom0 s * W)) v';
          Some (s\<lparr>buffer := b'\<rparr>) }"

definition restore_col :: "int \<Rightarrow> int \<Rightarrow> state \<Rightarrow> state option" where
  "restore_col W i s =
     do { v \<leftarrow> py_get (left_pix s) i;
          b \<leftarrow> py_set (buffer s) (left0 s + ((top0 s + i) * W)) v;
          v' \<leftarrow> py_get (right_pix s) i;
          b' \<leftarrow> py_set b (right0 s + ((top0 s + i - 1) * W)) v';
          Some (s\<lparr>buffer := b'\<rparr>) }"

text \<open>
  The restore step of \<open>MoveCursor\<close>, with its guard: nothing is restored when the four
  previous coordinates add up to 0.
\<close>

definition restore_previous :: "int \<Rightarrow> state \<Rightarrow> state option" where
  "restore_previous W s =
     (if left0 s + right0 s + top0 s + bottom0 s \<noteq> 0 then
        do { s1 \<leftarrow> for_each [0..right0 s - left0 s + 1 - 1] (restore_row W) s;
             for_each [0..bottom0 s - top0 s + 1 - 1] (restore_col W) s1 }
      else Some s)"

text \<open>
  Storing the pixels under the new outline.
  \<^verbatim>\<open>
  for i in range(right - left +1):
      top_pix[i] = buffer[left + i -1 + (top * WIDTH)]
      bottom_pix[i] = buffer[left + i + (bottom * WIDTH)]
  for i in range(bottom - top +1):
      left_pix[i] = buffer[left + ((top + i) * WIDTH)]
      right_pix[i] = buffer[right + ((top + i -1) * WIDTH)]
  \<close>
\<close>

definition store_row :: "int \<Rightarrow> int \<Rightarrow> state \<Rightarrow> state option" where
  "store_row W i s =
     do { v \<leftarrow> py_get (buffer s) (left s + i - 1 + (top_edge s * W));
          t \<leftarrow> py_set (top_pix s) i v;
          v' \<leftarrow> py_get (buffer s) (left s + i + (bottom s * W));
          b \<leftarrow> py_set (bottom_pix s) i v';
          Some (s\<lparr>top_pix := t, bottom_pix := b\<rparr>) }"

definition store_col :: "int \<Rightarrow> int \<Rightarrow> state \<Rightarrow> state option" where
  "store_col W i s =
     do { v \<leftarrow> py_get (buffer s) (left s + ((top_edge s + i) * W));
          l \<leftarrow> py_set (left_pix s) i v;
          v' \<leftarrow> py_get (buffer s) (right s + ((top_edge s + i - 1) * W));
          r \<leftarrow> py_set (right_pix s) i v';
          Some (s\<lparr>left_pix := l, right_pix := r\<rparr>) }"

definition store_outline :: "int \<Rightarrow> state \<Rightarrow> state option" where
  "store_outline W s =
     do { s1 \<leftarrow> for_each [0..right s - left s + 1 - 1] (store_row W) s;
          for_each [0..bottom s - top_edge s + 1 - 1] (store_col W) s1 }"

text \<open>
  Modelled from the spec: \<open>display.line\<close> and the pen \<open>WHITE\<close> belong to the PicoGraphics
  library, which is not part of the repository. The display draws into \<open>buffer\<close>, one
  byte per pixel, row by row (\<open>PEN_RGB332\<close>); \<open>WHITE\<close> is the byte of
  \<open>create_pen(255, 255, 255)\<close>. Following the spec ("draw the four edges of the new region
  as a highlighted outline"), a line sets every pixel from its first to its last point,
  both included, that lies on the surface. \<open>MoveCursor\<close> draws lines along a row or along
  a column only, so these two kinds are modelled.
\<close>

definition WHITE :: byte where
  "WHITE = 255"

definition display_pixel :: "int \<Rightarrow> int \<Rightarrow> byte \<Rightarrow> byte list \<Rightarrow> int \<Rightarrow> int \<Rightarrow> byte list" where
  "display_pixel W H pen buf x y =
     (if 0 \<le> x \<and> x < W \<and> 0 \<le> y \<and> y < H then buf[nat (x + y * W) := pen] else buf)"

definition display_line_row :: "int \<Rightarrow> int \<Rightarrow> byte \<Rightarrow> int \<Rightarrow> int \<Rightarrow> int \<Rightarrow> byte list \<Rightarrow> byte list" where
  "display_line_row W H pen x1 x2 y buf =
     foldl (\<lambda>b x. display_pixel W H pen b x y) buf [min x1 x2..max x1 x2]"

definition display_line_col :: "int \<Rightarrow> int \<Rightarrow> byte \<Rightarrow> int \<Rightarrow> int \<Rightarrow> int \<Rightarrow> byte list \<Rightarrow> byte list" where
  "display_line_col W H pen x y1 y2 buf =
     foldl (\<lambda>b y. display_pixel W H pen b x y) buf [min y1 y2..max y1 y2]"

text \<open>
  \<^verbatim>\<open>
  display.set_pen(WHITE)
  display.line(left,top,      right,top)
  display.line(right,top,     right,bottom)
  display.line(left, bottom,  right,bottom)
  display.line(left,top,      left,bottom)
  \<close>
\<close>

definition draw_outline :: "int \<Rightarrow> int \<Rightarrow> state \<Rightarrow> state" where
  "draw_outline W H s =
     (let b1 = display_line_row W H WHITE (left s) (right s) (top_edge s) (buffer s);
          b2 = display_line_col W H WHITE (right s) (top_edge s) (bottom s) b1;
          b3 = display_line_row W H WHITE (left s) (right s) (bottom s) b2;
          b4 = display_line_col W H WHITE (left s) (top_edge s) (bottom s) b3
      in s\<lparr>buffer := b4\<rparr>)"

text \<open>
  The second half of \<open>MoveCursor\<close>: when the rectangle has changed, restore the previous
  outline, store the pixels under the new one, draw it and remember it.
\<close>

definition update_cursor :: "int \<Rightarrow> int \<Rightarrow> state \<Rightarrow> state option" where
  "update_cursor W H s =
     (if left0 s \<noteq> left s \<or> right0 s \<noteq> right s \<or> top0 s \<noteq> top_edge s \<or> bottom0 s \<noteq> bottom s
      then
        do { s1 \<leftarrow> restore_previous W s;
             s2 \<leftarrow> store_outline W s1;
             let s3 = draw_outline W H s2;
             Some (s3\<lparr>left0 := left s3, right0 := right s3,
                       top0 := top_edge s3, bottom0 := bottom s3\<rparr>) }
      else Some s)"

text \<open>
  \<open>MoveCursor\<close> does nothing until the next sensor read is due (\<open>due\<close> is the test
  \<open>time.ticks_ms() >= nextSensorRead\<close>).
\<close>

definition MoveCursor :: "bool \<Rightarrow> int \<Rightarrow> int \<Rightarrow> real \<Rightarrow> real \<Rightarrow> real \<Rightarrow> state \<Rightarrow> state option" where
  "MoveCursor due W H vx vy vz s =
     (if due then update_cursor W H (read_cursor W H vx vy vz s) else Some s)"

text \<open>
  The pixels of the outline of a rectangle, the byte of a pixel in \<open>buffer\<close>, and the
  rectangles that lie on the surface.
\<close>

definition on_border :: "int \<Rightarrow> int \<Rightarrow> int \<Rightarrow> int \<Rightarrow> int \<Rightarrow> int \<Rightarrow> bool" where
  "on_border l r t b x y \<longleftrightarrow>
     l \<le> x \<and> x \<le> r \<and> t \<le> y \<and> y \<le> b \<and> (x = l \<or> x = r \<or> y = t \<or> y = b)"

definition pixel_at :: "int \<Rightarrow> byte list \<Rightarrow> int \<Rightarrow> int \<Rightarrow> byte" where
  "pixel_at W buf x y = buf ! nat (x + y * W)"

definition on_surface :: "int \<Rightarrow> int \<Rightarrow> int \<Rightarrow> int \<Rightarrow> int \<Rightarrow> int \<Rightarrow> bool" where
  "on_surface W H l r t b \<longleftrightarrow> 0 \<le> l \<and> l \<le> r \<and> r < W \<and> 0 \<le> t \<and> t \<le> b \<and> b < H"


text \<open>
  The position in a sequence of length \<open>n\<close> that an index \<open>j\<close> with \<open>-n \<le> j < n\<close> denotes.
\<close>

definition pos :: "nat \<Rightarrow> int \<Rightarrow> nat" where
  "pos n j = (if 0 \<le> j then nat j else nat (j + int n))"

text \<open>
  A test surface of 4 by 4 pixels seeded with sixteen different bytes, in the initial
  state otherwise, and two cursor cycles on it: the potentiometers at mid-scale give the
  rectangle \<open>left = 1, right = 3, top = 1, bottom = 3\<close>; then zoom 0 V, cursor-X 0 V and
  cursor-Y 3.3 V give the one-pixel rectangle at \<open>(0, 0)\<close>.
\<close>

definition seeded_state :: state where
  "seeded_state =
     (init_state 4 4)\<lparr>buffer := [10, 11, 12, 13, 14, 15, 16, 17, 18, 19, 20, 21, 22, 23, 24, 25]\<rparr>"

abbreviation first_outline :: state where
  "first_outline \<equiv> the (MoveCursor True 4 4 1.65 1.65 1.65 seeded_state)"

abbreviation second_outline :: state where
  "second_outline \<equiv> the (MoveCursor True 4 4 0 3.3 0 first_outline)"


section \<open>The navigation commands\<close>

text \<open>
  Each command reads its button (\<open>pressed\<close>) and returns it with the new state. Printing and
  the half-second sleep have no effect on the state. \<open>ZoomIn\<close> prints \<open>z\<close>, \<open>newWidth\<close> and
  \<open>newHeight\<close>, which are unset until the first \<open>MoveCursor\<close>: the model is of a \<open>ZoomIn\<close>
  issued after a cursor cycle.
\<close>

definition ChangeRez :: "bool \<Rightarrow> state \<Rightarrow> bool \<times> state" where
  "ChangeRez pressed s =
     (if pressed then
        (let s1 = s\<lparr>isHiRez := \<not> isHiRez s\<rparr>;
             s2 = (if isHiRez s1 then s1\<lparr>MAX_ITER := MAX_ITER s1 * 2\<rparr>
                   else s1\<lparr>MAX_ITER := MAX_ITER s1 / 2\<rparr>)
         in (pressed, s2))
      else (pressed, s))"






section \<open>Properties of the escape-time evaluator\<close>

text \<open>
  The lemmas below use only the shape of the loop (a counter that stops the loop once it
  passes \<open>MAX_ITER\<close>), so they do not depend on how the complex arithmetic rounds.
\<close>

lemma mandelbrot_loop_step:
  "cmod mz \<le> 2 \<and> real n \<le> M \<Longrightarrow>
   mandelbrot_loop M c mz n = mandelbrot_loop M c (mz * mz + c) (n + 1)"
  by (subst mandelbrot_loop.simps) (simp only: if_P)

lemma mandelbrot_loop_stop:
  "\<not> (cmod mz \<le> 2 \<and> real n \<le> M) \<Longrightarrow> mandelbrot_loop M c mz n = n"
  by (subst mandelbrot_loop.simps) (simp only: if_not_P if_False)

lemma mandelbrot_loop_ge: "n \<le> mandelbrot_loop M c mz n"
proof (induction M c mz n rule: mandelbrot_loop.induct)
  case (1 M c mz n)
  show ?case
  proof (cases "cmod mz \<le> 2 \<and> real n \<le> M")
    case True
    with "1.IH" have "n + 1 \<le> mandelbrot_loop M c (mz * mz + c) (n + 1)" by simp
    with mandelbrot_loop_step [OF True, of c] show ?thesis by simp
  next
    case False
    then show ?thesis by (simp add: mandelbrot_loop_stop)
  qed
qed

lemma mandelbrot_loop_le:
  "real n \<le> M + 1 \<Longrightarrow> real (mandelbrot_loop M c mz n) \<le> M + 1"
proof (induction M c mz n rule: mandelbrot_loop.induct)
  case (1 M c mz n)
  show ?case
  proof (cases "cmod mz \<le> 2 \<and> real n \<le> M")
    case True
    then have "real (n + 1) \<le> M + 1" by simp
    with "1.IH" True have "real (mandelbrot_loop M c (mz * mz + c) (n + 1)) \<le> M + 1" by blast
    with mandelbrot_loop_step [OF True, of c] show ?thesis by simp
  next
    case False
    with "1.prems" show ?thesis by (simp add: mandelbrot_loop_stop)
  qed
qed

lemma mandelbrot_loop_mono:
  "M1 \<le> M2 \<Longrightarrow> mandelbrot_loop M1 c mz n \<le> mandelbrot_loop M2 c mz n"
proof (induction M1 c mz n rule: mandelbrot_loop.induct)
  case (1 M1 c mz n)
  show ?case
  proof (cases "cmod mz \<le> 2 \<and> real n \<le> M1")
    case True
    with "1.prems" have c2: "cmod mz \<le> 2 \<and> real n \<le> M2" by simp
    from "1.IH" True "1.prems"
    have "mandelbrot_loop M1 c (mz * mz + c) (n + 1) \<le> mandelbrot_loop M2 c (mz * mz + c) (n + 1)"
      by blast
    with mandelbrot_loop_step [OF True, of c] mandelbrot_loop_step [OF c2, of c] show ?thesis
      by simp
  next
    case False
    then have "mandelbrot_loop M1 c mz n = n" by (rule mandelbrot_loop_stop)
    then show ?thesis by (simp add: mandelbrot_loop_ge)
  qed
qed

lemma mandelbrot_loop_escaped:
  "M1 \<le> M2 \<Longrightarrow> real (mandelbrot_loop M1 c mz n) \<le> M1 \<Longrightarrow>
   mandelbrot_loop M2 c mz n = mandelbrot_loop M1 c mz n"
proof (induction M1 c mz n rule: mandelbrot_loop.induct)
  case (1 M1 c mz n)
  show ?case
  proof (cases "cmod mz \<le> 2 \<and> real n \<le> M1")
    case True
    with "1.prems" have c2: "cmod mz \<le> 2 \<and> real n \<le> M2" by simp
    from True have u1: "mandelbrot_loop M1 c mz n = mandelbrot_loop M1 c (mz * mz + c) (n + 1)"
      by (rule mandelbrot_loop_step)
    from c2 have u2: "mandelbrot_loop M2 c mz n = mandelbrot_loop M2 c (mz * mz + c) (n + 1)"
      by (rule mandelbrot_loop_step)
    from "1.prems" u1 have "real (mandelbrot_loop M1 c (mz * mz + c) (n + 1)) \<le> M1" by simp
    with "1.IH" True "1.prems"(1)
    have "mandelbrot_loop M2 c (mz * mz + c) (n + 1) = mandelbrot_loop M1 c (mz * mz + c) (n + 1)"
      by blast
    with u1 u2 show ?thesis by simp
  next
    case False
    then have u1: "mandelbrot_loop M1 c mz n = n" by (rule mandelbrot_loop_stop)
    with "1.prems" have "real n \<le> M1" by simp
    with False have "\<not> cmod mz \<le> 2" by simp
    then have "mandelbrot_loop M2 c mz n = n" by (simp add: mandelbrot_loop_stop)
    with u1 show ?thesis by simp
  qed
qed

lemma mandelbrot_ge_1: "0 \<le> M \<Longrightarrow> 1 \<le> mandelbrot M c"
proof -
  assume "0 \<le> M"
  then have "mandelbrot M c = mandelbrot_loop M c (0 * 0 + c) (0 + 1)"
    unfolding mandelbrot_def by (subst mandelbrot_loop.simps) simp
  moreover have "0 + 1 \<le> mandelbrot_loop M c (0 * 0 + c) (0 + 1)"
    by (rule mandelbrot_loop_ge)
  ultimately show ?thesis by simp
qed

lemma mandelbrot_loop_bounded_orbit:
  "cmod c \<le> 1/4 \<Longrightarrow> cmod mz \<le> 1/2 \<Longrightarrow> n \<le> k + 1 \<Longrightarrow>
   mandelbrot_loop (real k) c mz n = k + 1"
proof (induction "real k" c mz n rule: mandelbrot_loop.induct)
  case (1 c mz n)
  show ?case
  proof (cases "n \<le> k")
    case True
    have "cmod (mz * mz + c) \<le> cmod (mz * mz) + cmod c" by (rule norm_triangle_ineq)
    also have "cmod (mz * mz) = cmod mz * cmod mz" by (rule norm_mult)
    also have "cmod mz * cmod mz \<le> (1/2) * (1/2)"
      using "1.prems"(2) by (intro mult_mono) simp_all
    finally have b: "cmod (mz * mz + c) \<le> 1/2" using "1.prems"(1) by simp
    from True "1.prems"(2) have cond: "cmod mz \<le> 2 \<and> real n \<le> real k" by simp
    with "1.hyps" "1.prems"(1) b True
    have "mandelbrot_loop (real k) c (mz * mz + c) (n + 1) = k + 1" by simp
    with mandelbrot_loop_step [OF cond, of c] show ?thesis by simp
  next
    case False
    with "1.prems"(3) have "n = k + 1" by simp
    then show ?thesis by (simp add: mandelbrot_loop_stop)
  qed
qed


text \<open>
  Claim C5. For every point \<open>c\<close> and all iteration bounds \<open>M1 < M2\<close> (the positive integers
  of the claim are a special case of the real bounds taken here), the evaluator is
  monotone in the bound: \<open>mandelbrot M1 c \<le> mandelbrot M2 c\<close>; and when the count under the
  smaller bound is below that bound (the point has already escaped), both bounds give
  the same count.
\<close>

theorem mandelbrot_monotone:
  "M1 < M2 \<Longrightarrow>
   mandelbrot M1 c \<le> mandelbrot M2 c \<and>
   (real (mandelbrot M1 c) < M1 \<longrightarrow> mandelbrot M2 c = mandelbrot M1 c)"
  unfolding mandelbrot_def
  using mandelbrot_loop_mono [of M1 M2 c 0 0] mandelbrot_loop_escaped [of M1 M2 c 0 0]
  by simp

theorem mandelbrot_monotone_witness:
  "(15::real) < 30 \<and> real (mandelbrot 15 3) < 15 \<and>
   mandelbrot 15 3 \<le> mandelbrot 30 3 \<and> mandelbrot 30 3 = mandelbrot 15 3"
proof -
  have "mandelbrot 15 3 = mandelbrot_loop 15 3 (0 * 0 + 3) (0 + 1)"
    unfolding mandelbrot_def by (rule mandelbrot_loop_step) simp
  also have "\<dots> = 0 + 1"
    by (rule mandelbrot_loop_stop) simp
  finally have e: "mandelbrot 15 3 = 1" by simp
  show ?thesis
    using mandelbrot_monotone [of 15 30 3] e by simp
qed

text \<open>
  Claim C9. For every point \<open>c\<close> and every iteration bound \<open>M \<ge> 1\<close>, the evaluator
  returns a count \<open>n\<close> with \<open>1 \<le> n \<le> M + 1\<close>: the loop body runs at least once, so 0 is
  never returned. The count does exceed the bound by exactly one for a point that never
  escapes: for an integral bound and any \<open>c\<close> with \<open>|c| \<le> 1/4\<close> (whose orbit stays within
  \<open>|z| \<le> 1/2\<close>) the result is \<open>M + 1\<close>.
\<close>

theorem mandelbrot_count_range:
  assumes "1 \<le> M"
  shows "1 \<le> mandelbrot M c \<and> real (mandelbrot M c) \<le> M + 1 \<and>
         (cmod c \<le> 1/4 \<longrightarrow> M \<in> \<nat> \<longrightarrow> real (mandelbrot M c) = M + 1)"
proof (intro conjI impI)
  from assms show "1 \<le> mandelbrot M c"
    by (intro mandelbrot_ge_1) simp
  from assms show "real (mandelbrot M c) \<le> M + 1"
    unfolding mandelbrot_def by (intro mandelbrot_loop_le) simp
next
  assume c: "cmod c \<le> 1/4" and "M \<in> \<nat>"
  then obtain k where k: "M = real k"
    by (auto simp: Nats_def)
  from c have "mandelbrot_loop (real k) c 0 0 = k + 1"
    by (intro mandelbrot_loop_bounded_orbit) simp_all
  with k show "real (mandelbrot M c) = M + 1"
    by (simp add: mandelbrot_def)
qed

theorem mandelbrot_count_range_witness:
  "(1::real) \<le> 15 \<and> cmod 0 \<le> 1/4 \<and> (15::real) \<in> \<nat> \<and>
   1 \<le> mandelbrot 15 0 \<and> real (mandelbrot 15 0) \<le> 15 + 1 \<and>
   real (mandelbrot 15 0) = 15 + 1"
  using mandelbrot_count_range [of 15 0] by simp


section \<open>Properties of the column renderer\<close>

lemma length_pen_colour: "length pen_colour = 15"
  by (simp add: pen_colour_def)

lemma MAX_COLOURS_eq: "MAX_COLOURS = 10"
  by (simp add: MAX_COLOURS_def length_pen_colour)

lemma thread_colour_range: "0 \<le> thread_colour W H s x y \<and> thread_colour W H s x y \<le> 14"
  by (simp add: thread_colour_def Let_def)

lemma main_colour_range:
  "0 \<le> main_colour W H s x y \<and> main_colour W H s x y \<le> MAX_COLOURS - 1"
  by (simp add: main_colour_def Let_def MAX_COLOURS_eq)

lemma main_column_index:
  "Pixel x y i \<in> set (main_column W H s x1) \<Longrightarrow> 0 < i \<and> i \<le> MAX_COLOURS - 1"
  using main_colour_range [of W H s x1]
  by (auto simp: main_column_def Let_def split: if_splits)

lemma length_mandelbrotThreadX: "length (mandelbrotThreadX W H s x) = nat H"
  by (simp add: mandelbrotThreadX_def)

lemma mandelbrotThreadX_nth:
  "0 \<le> y \<Longrightarrow> y < H \<Longrightarrow> mandelbrotThreadX W H s x ! nat y = thread_colour W H s x y"
  by (simp add: mandelbrotThreadX_def)

lemma plot_results_index:
  "Pixel x' y i \<in> set (plot_results H x (mandelbrotThreadX W H s x)) \<Longrightarrow> 0 < i \<and> i \<le> 14"
proof -
  assume "Pixel x' y i \<in> set (plot_results H x (mandelbrotThreadX W H s x))"
  then have y: "0 \<le> y" "y < H" and i: "i = mandelbrotThreadX W H s x ! nat y" "i \<noteq> 0"
    by (auto simp: plot_results_def split: if_splits)
  then have "i = thread_colour W H s x y"
    by (simp add: mandelbrotThreadX_nth)
  with thread_colour_range [of W H s x y] i show ?thesis by simp
qed

lemma draw_pair_index:
  "Pixel x' y i \<in> set (draw_pair W H s x) \<Longrightarrow> 0 < i \<and> i \<le> 14"
  using main_column_index [of x' y i W H s "x + 1"] plot_results_index [of x' y i H x W s]
  by (auto simp: draw_pair_def Let_def MAX_COLOURS_eq split: if_splits)

lemma DrawMandelbrotX_index:
  "Pixel x y i \<in> set (DrawMandelbrotX W H s) \<Longrightarrow> 0 < i \<and> i \<le> 14"
  by (auto simp: DrawMandelbrotX_def dest: draw_pair_index)

lemma updates_append: "updates (xs @ ys) = updates xs + updates ys"
  by (simp add: updates_def)

lemma updates_main_column: "updates (main_column W H s x1) = 0"
  by (auto simp: updates_def main_column_def Let_def filter_empty_conv)

lemma updates_plot_results: "updates (plot_results H x rs) = 0"
  by (auto simp: updates_def plot_results_def filter_empty_conv)

lemma updates_draw_pair: "x mod 2 = 0 \<Longrightarrow> updates (draw_pair W H s x) = 1"
  by (simp add: draw_pair_def Let_def updates_append updates_main_column updates_plot_results)
     (simp add: updates_def)

lemma updates_pairs:
  "\<forall>x \<in> set xs. x mod 2 = 0 \<Longrightarrow> updates (concat (map (draw_pair W H s) xs)) = length xs"
  by (induction xs) (simp_all add: updates_def updates_append updates_draw_pair [unfolded updates_def])

lemma length_evens: "0 \<le> k \<Longrightarrow> length (filter (\<lambda>x. x mod 2 = 0) [0..2 * k - 1]) = nat k"
proof (induction k rule: int_ge_induct)
  case base
  then show ?case by simp
next
  case (step i)
  have a: "[0..2 * i + 1] = [0..2 * i] @ [2 * i + 1]"
    using step.hyps upto_rec2 [of 0 "2 * i + 1"] by simp
  have b: "[0..2 * i] = [0..2 * i - 1] @ [2 * i]"
    using step.hyps upto_rec2 [of 0 "2 * i"] by simp
  have e: "2 * (i + 1) - 1 = 2 * i + 1"
    by simp
  have "[0..2 * (i + 1) - 1] = [0..2 * i - 1] @ [2 * i, 2 * i + 1]"
    unfolding e a b by simp
  with step show ?case by (simp add: nat_add_distrib)
qed

lemma updates_DrawMandelbrotX:
  "0 \<le> k \<Longrightarrow> updates (DrawMandelbrotX (2 * k) H s) = nat k + 1"
  by (simp add: DrawMandelbrotX_def updates_append updates_pairs length_evens)
     (simp add: updates_def)

lemma main_pixel_drawn:
  assumes "0 \<le> x" "x < W" "x mod 2 = 0" "0 \<le> y" "y < H"
    and "main_colour W H s (x + 1) y = i" "0 < i"
  shows "Pixel (x + 1) y i \<in> set (DrawMandelbrotX W H s)"
proof -
  from assms(4-7) have "Pixel (x + 1) y i \<in> set (main_column W H s (x + 1))"
    by (auto simp: main_column_def Let_def intro!: bexI [of _ y])
  then have "Pixel (x + 1) y i \<in> set (draw_pair W H s x)"
    by (simp add: draw_pair_def Let_def)
  moreover from assms(1-3) have "x \<in> set (filter (\<lambda>x. x mod 2 = 0) [0..W - 1])"
    by simp
  ultimately show ?thesis
    unfolding DrawMandelbrotX_def by (auto intro!: bexI [of _ x])
qed

lemma cmod_real: "cmod (Complex a 0) = \<bar>a\<bar>"
  by (simp add: cmod_def)

lemma mandelbrot_inside: "cmod c \<le> 1/4 \<Longrightarrow> mandelbrot (real k) c = k + 1"
  unfolding mandelbrot_def by (rule mandelbrot_loop_bounded_orbit) simp_all

lemma mandelbrot_pixel_180_120: "mandelbrot 15 (Complex (- (1/10)) 0) = 16"
  using mandelbrot_inside [of "Complex (- (1/10)) 0" 15] by (simp add: cmod_real)

lemma cmod_le_iff: "0 \<le> r \<Longrightarrow> cmod (Complex a b) \<le> r \<longleftrightarrow> a\<^sup>2 + b\<^sup>2 \<le> r\<^sup>2"
proof -
  assume r: "0 \<le> r"
  have "cmod (Complex a b) \<le> r \<longleftrightarrow> (cmod (Complex a b))\<^sup>2 \<le> r\<^sup>2"
    using r abs_le_square_iff [of "cmod (Complex a b)" r] by simp
  then show ?thesis
    by (simp add: cmod_power2)
qed

lemma mandelbrot_pixel_75_0: "mandelbrot 15 (Complex (- (99/80)) (- (6/5))) = 2"
proof -
  let ?c = "Complex (- (99/80)) (- (6/5))"
  have "mandelbrot_loop 15 ?c 0 0 = mandelbrot_loop 15 ?c (0 * 0 + ?c) (0 + 1)"
    by (rule mandelbrot_loop_step) simp
  also have "\<dots> = mandelbrot_loop 15 ?c ?c 1"
    by simp
  also have "\<dots> = mandelbrot_loop 15 ?c (?c * ?c + ?c) (1 + 1)"
    by (rule mandelbrot_loop_step) (simp add: complex_mult complex_add cmod_le_iff power2_eq_square)
  also have "\<dots> = 1 + 1"
    by (rule mandelbrot_loop_stop) (simp add: complex_mult complex_add cmod_le_iff power2_eq_square)
  finally show ?thesis by (simp add: mandelbrot_def)
qed


text \<open>
  Claim C1 says that the worker and the coordinator map an iteration count \<open>m\<close> to the
  palette index \<open>(m - 1) mod paletteSize\<close> with the same \<open>paletteSize\<close>. The worker reduces
  modulo the literal 15 and the coordinator modulo \<open>MAX_COLOURS = 10\<close>. On the default
  viewport with a 240 by 240 surface, the point sampled at pixel \<open>(180, 120)\<close> is
  \<open>-0.1 + 0i\<close>, which never escapes: the count is 16, the worker stores index 0 for it and
  the coordinator's computation gives index 5.
\<close>

theorem palette_size_mismatch:
  "mandelbrot (MAX_ITER (init_state 240 240)) (Complex (- (1/10)) 0) = 16 \<and>
   thread_colour 240 240 (init_state 240 240) 180 120 = 0 \<and>
   main_colour 240 240 (init_state 240 240) 180 120 = 5"
  using mandelbrot_pixel_180_120 by (simp add: thread_colour_def main_colour_def init_state_def Let_def MAX_COLOURS_eq)

text \<open>
  Claim C4 says that the surface is flushed on every second column pair only, with one
  more flush at the end. The test \<open>x % 2 == 0\<close> holds for every \<open>x\<close> of
  \<open>range(0, WIDTH, 2)\<close>, so each of the 120 pairs of a 240-column pass is followed by a
  flush: with the final one, the pass flushes 121 times.
\<close>

theorem flush_after_every_pair:
  "updates (DrawMandelbrotX 240 240 (init_state 240 240)) = 121"
  using updates_DrawMandelbrotX [of 120 240 "init_state 240 240"] by simp

text \<open>
  Claim C10. Every palette lookup of a render pass is within the 15 entries of
  \<open>pen_colour\<close>: the index the worker stores lies in \<open>[0, 14]\<close>, the coordinator's index lies
  in \<open>[0, MAX_COLOURS - 1]\<close> with \<open>MAX_COLOURS \<le> 15\<close>, and every pixel request of the pass
  carries an index that is strictly positive and below the length of the table.
\<close>

theorem palette_lookups_in_bounds:
  "length pen_colour = 15 \<and> MAX_COLOURS \<le> 15 \<and>
   0 \<le> thread_colour W H s x y \<and> thread_colour W H s x y \<le> 14 \<and>
   0 \<le> main_colour W H s x y \<and> main_colour W H s x y \<le> MAX_COLOURS - 1 \<and>
   (\<forall>e \<in> set (DrawMandelbrotX W H s).
      \<forall>px py i. e = Pixel px py i \<longrightarrow> 0 < i \<and> i < int (length pen_colour))"
proof -
  have "\<forall>e \<in> set (DrawMandelbrotX W H s).
      \<forall>px py i. e = Pixel px py i \<longrightarrow> 0 < i \<and> i < int (length pen_colour)"
  proof (intro ballI allI impI)
    fix e px py i
    assume "e \<in> set (DrawMandelbrotX W H s)" and "e = Pixel px py i"
    then have "0 < i \<and> i \<le> 14"
      by (intro DrawMandelbrotX_index [of px py i W H s]) simp
    then show "0 < i \<and> i < int (length pen_colour)"
      by (simp add: length_pen_colour)
  qed
  then show ?thesis
    using thread_colour_range [of W H s x y] main_colour_range [of W H s x y]
    by (simp add: length_pen_colour MAX_COLOURS_eq)
qed

theorem palette_lookups_in_bounds_witness:
  "Pixel 75 0 1 \<in> set (DrawMandelbrotX 240 240 (init_state 240 240)) \<and>
   (0::int) < 1 \<and> (1::int) < int (length pen_colour)"
proof -
  have "main_colour 240 240 (init_state 240 240) (74 + 1) 0 = 1"
    using mandelbrot_pixel_75_0 by (simp add: main_colour_def init_state_def Let_def MAX_COLOURS_eq)
  then have "Pixel (74 + 1) 0 1 \<in> set (DrawMandelbrotX 240 240 (init_state 240 240))"
    by (intro main_pixel_drawn) simp_all
  then have mem: "Pixel 75 0 1 \<in> set (DrawMandelbrotX 240 240 (init_state 240 240))"
    by simp
  from palette_lookups_in_bounds [of 240 240 "init_state 240 240" 0 0] mem
  show ?thesis by blast
qed


section \<open>Properties of the cursor overlay\<close>

subsection \<open>The cursor rectangle\<close>

lemma py_int_nonneg: "0 \<le> v \<Longrightarrow> 0 \<le> py_int v"
  by (simp add: py_int_def)

lemma py_int_le: "0 \<le> v \<Longrightarrow> real_of_int (py_int v) \<le> v"
  by (simp add: py_int_def)

lemma half_size_fits:
  assumes "0 \<le> q" "q < real_of_int n"
  shows "0 \<le> py_int (q / 2) \<and> 2 * py_int (q / 2) \<le> n - 1"
proof -
  have "real_of_int (py_int (q / 2)) \<le> q / 2"
    using assms by (intro py_int_le) simp
  then have "real_of_int (2 * py_int (q / 2)) < real_of_int n"
    using assms by simp
  then have "2 * py_int (q / 2) < n"
    by (simp only: of_int_less_iff)
  with assms show ?thesis
    by (simp add: py_int_nonneg)
qed

lemma clamp_fits:
  fixes h n c :: int
  assumes "0 \<le> h" "2 * h \<le> n - 1"
  shows "0 \<le> min (max h c) (n - 1 - h) - h \<and> min (max h c) (n - 1 - h) + h < n \<and>
         min (max h c) (n - 1 - h) - h \<le> min (max h c) (n - 1 - h) + h"
  using assms by (simp_all add: min_def max_def)

lemma read_cursor_on_surface:
  assumes "0 < W" "0 < H" "0 \<le> vz" "vz < 3.3"
  shows "on_surface W H (left (read_cursor W H vx vy vz s)) (right (read_cursor W H vx vy vz s))
           (top_edge (read_cursor W H vx vy vz s)) (bottom (read_cursor W H vx vy vz s))"
proof -
  define zoom where "zoom = getZoomLevel W H vz"
  have m: "0 < min H W" using assms by simp
  have v: "0 \<le> vz / 3.3 * real_of_int (min H W)"
    using assms m by simp
  have "vz / 3.3 < 1" using assms by simp
  then have v1: "vz / 3.3 * real_of_int (min H W) < real_of_int (min H W)"
    using m by simp
  have z0: "0 \<le> zoom"
    unfolding zoom_def getZoomLevel_def using v by (rule py_int_nonneg)
  have "real_of_int zoom \<le> vz / 3.3 * real_of_int (min H W)"
    unfolding zoom_def getZoomLevel_def using v by (rule py_int_le)
  with v1 have zm: "real_of_int zoom < real_of_int (min H W)" by linarith
  then have "zoom < min H W" by (simp only: of_int_less_iff)
  then have zH: "real_of_int zoom < real_of_int H" by simp
  have nh: "0 \<le> py_int (real_of_int zoom / 2) \<and> 2 * py_int (real_of_int zoom / 2) \<le> H - 1"
    using z0 zH by (intro half_size_fits) simp_all
  have "real_of_int (zoom * W) / real_of_int H < real_of_int W"
    using assms zH z0 by (simp add: field_simps mult_strict_right_mono)
  moreover have "0 \<le> real_of_int (zoom * W) / real_of_int H"
    using assms z0 by simp
  ultimately have nw: "0 \<le> py_int ((real_of_int (zoom * W) / real_of_int H) / 2) \<and>
      2 * py_int ((real_of_int (zoom * W) / real_of_int H) / 2) \<le> W - 1"
    by (intro half_size_fits) simp_all
  show ?thesis
    using clamp_fits [OF conjunct1 [OF nw] conjunct2 [OF nw], of "getCursorX W vx"]
      clamp_fits [OF conjunct1 [OF nh] conjunct2 [OF nh], of "getCursorY H vy"]
    by (simp add: read_cursor_def Let_def on_surface_def zoom_def [symmetric] max.commute)
qed


text \<open>
  Claim C3 says that for every setting of the three potentiometers the rectangle of one
  \<open>MoveCursor\<close> cycle satisfies \<open>0 \<le> left \<le> right < W\<close> and \<open>0 \<le> top \<le> bottom < H\<close>,
  the maximum of the zoom knob included. With the zoom potentiometer at full scale
  (3.3 V) on the 240 by 240 display, the zoom is 240 and both half sizes are 120; the
  centre is raised to 120 and then lowered to \<open>240 - 1 - 120 = 119\<close>, so \<open>left\<close> and \<open>top\<close>
  are \<open>-1\<close>. (Lemma \<open>read_cursor_on_surface\<close> above: below full scale the rectangle is on
  the surface.)
\<close>

theorem cursor_leaves_surface_at_full_zoom:
  "left (read_cursor 240 240 0 0 3.3 (init_state 240 240)) = - 1 \<and>
   right (read_cursor 240 240 0 0 3.3 (init_state 240 240)) = 239 \<and>
   top_edge (read_cursor 240 240 0 0 3.3 (init_state 240 240)) = - 1 \<and>
   bottom (read_cursor 240 240 0 0 3.3 (init_state 240 240)) = 239"
  by (simp add: read_cursor_def Let_def getZoomLevel_def getCursorX_def getCursorY_def py_int_def)


subsection \<open>Storing and restoring the outline\<close>

lemma py_index_pos: "- int n \<le> j \<Longrightarrow> j < int n \<Longrightarrow> py_index n j = Some (pos n j)"
  by (simp add: py_index_def pos_def)

lemma pos_less: "- int n \<le> j \<Longrightarrow> j < int n \<Longrightarrow> pos n j < n"
  by (auto simp: pos_def)

lemma py_get_pos: "- int (length xs) \<le> j \<Longrightarrow> j < int (length xs) \<Longrightarrow> py_get xs j = Some (xs ! pos (length xs) j)"
  by (simp add: py_get_def py_index_pos)

lemma py_set_pos: "- int (length xs) \<le> j \<Longrightarrow> j < int (length xs) \<Longrightarrow> py_set xs j v = Some (xs[pos (length xs) j := v])"
  by (simp add: py_set_def py_index_pos)

lemma py_get_nat: "0 \<le> j \<Longrightarrow> nat j < length xs \<Longrightarrow> py_get xs j = Some (xs ! nat j)"
  by (simp add: py_get_def py_index_def)

lemma py_set_nat: "0 \<le> j \<Longrightarrow> nat j < length xs \<Longrightarrow> py_set xs j v = Some (xs[nat j := v])"
  by (simp add: py_set_def py_index_def)

lemma for_each_write_back:
  fixes put :: "byte list \<Rightarrow> state"
  assumes step: "\<And>i buf. i \<in> set js \<Longrightarrow> length buf = N \<Longrightarrow>
      body i (put buf) = Some (put (buf[k1 i := pre ! k1 i, k2 i := pre ! k2 i]))"
    and "length buf = N"
    and "\<forall>p\<in>S. buf ! p = pre ! p"
    and "\<forall>i\<in>set js. k1 i < N \<and> k2 i < N"
  shows "\<exists>buf'. for_each js body (put buf) = Some (put buf') \<and> length buf' = N \<and>
           (\<forall>p \<in> S \<union> k1 ` set js \<union> k2 ` set js. buf' ! p = pre ! p)"
  using assms
proof (induction js arbitrary: buf S)
  case Nil
  then show ?case by auto
next
  case (Cons i js)
  let ?buf = "buf[k1 i := pre ! k1 i, k2 i := pre ! k2 i]"
  have b: "body i (put buf) = Some (put ?buf)"
    using Cons.prems(1) [of i buf] Cons.prems(2) by simp
  have len: "length ?buf = N"
    using Cons.prems(2) by simp
  have k: "k1 i < N" "k2 i < N"
    using Cons.prems(4) by simp_all
  have inv: "\<forall>p \<in> S \<union> {k1 i, k2 i}. ?buf ! p = pre ! p"
    using Cons.prems(2,3) k by (auto simp: nth_list_update)
  have "\<exists>buf'. for_each js body (put ?buf) = Some (put buf') \<and> length buf' = N \<and>
           (\<forall>p \<in> (S \<union> {k1 i, k2 i}) \<union> k1 ` set js \<union> k2 ` set js. buf' ! p = pre ! p)"
  proof (rule Cons.IH [OF _ len inv])
    show "\<And>j buf. j \<in> set js \<Longrightarrow> length buf = N \<Longrightarrow>
      body j (put buf) = Some (put (buf[k1 j := pre ! k1 j, k2 j := pre ! k2 j]))"
      using Cons.prems(1) by simp
    show "\<forall>i\<in>set js. k1 i < N \<and> k2 i < N"
      using Cons.prems(4) by simp
  qed
  then obtain buf' where r: "for_each js body (put ?buf) = Some (put buf')" "length buf' = N"
    "\<forall>p \<in> (S \<union> {k1 i, k2 i}) \<union> k1 ` set js \<union> k2 ` set js. buf' ! p = pre ! p"
    by blast
  have "for_each (i # js) body (put buf) = Some (put buf')"
    using b r(1) by simp
  moreover have "\<forall>p \<in> S \<union> k1 ` set (i # js) \<union> k2 ` set (i # js). buf' ! p = pre ! p"
    using r(3) by auto
  ultimately show ?case using r(2) by blast
qed

lemma for_each_store:
  fixes put :: "byte list \<Rightarrow> byte list \<Rightarrow> state"
  assumes step: "\<And>i xs ys. i \<in> set js \<Longrightarrow> length xs = n1 \<Longrightarrow> length ys = n2 \<Longrightarrow>
      body i (put xs ys) = Some (put (xs[nat i := f1 i]) (ys[nat i := f2 i]))"
    and "length xs = n1" "length ys = n2"
    and "\<forall>i\<in>set js. 0 \<le> i \<and> nat i < n1 \<and> nat i < n2"
    and "\<forall>i\<in>S. 0 \<le> i \<and> xs ! nat i = f1 i \<and> ys ! nat i = f2 i"
  shows "\<exists>xs' ys'. for_each js body (put xs ys) = Some (put xs' ys') \<and>
           length xs' = n1 \<and> length ys' = n2 \<and>
           (\<forall>i \<in> S \<union> set js. xs' ! nat i = f1 i \<and> ys' ! nat i = f2 i)"
  using assms
proof (induction js arbitrary: xs ys S)
  case Nil
  then show ?case by auto
next
  case (Cons i js)
  let ?xs = "xs[nat i := f1 i]" and ?ys = "ys[nat i := f2 i]"
  have b: "body i (put xs ys) = Some (put ?xs ?ys)"
    using Cons.prems(1) [of i xs ys] Cons.prems(2,3) by simp
  have len: "length ?xs = n1" "length ?ys = n2"
    using Cons.prems(2,3) by simp_all
  have i: "0 \<le> i" "nat i < n1" "nat i < n2"
    using Cons.prems(4) by simp_all
  have inv: "\<forall>j \<in> S \<union> {i}. 0 \<le> j \<and> ?xs ! nat j = f1 j \<and> ?ys ! nat j = f2 j"
  proof
    fix j assume j: "j \<in> S \<union> {i}"
    show "0 \<le> j \<and> ?xs ! nat j = f1 j \<and> ?ys ! nat j = f2 j"
    proof (cases "j = i")
      case True
      with i Cons.prems(2,3) show ?thesis by simp
    next
      case False
      with j have jS: "j \<in> S" by simp
      with Cons.prems(5) have j0: "0 \<le> j" "xs ! nat j = f1 j" "ys ! nat j = f2 j"
        by simp_all
      from False j0(1) i(1) have "nat i \<noteq> nat j"
        by (simp add: eq_nat_nat_iff)
      with j0 show ?thesis by simp
    qed
  qed
  have "\<exists>xs' ys'. for_each js body (put ?xs ?ys) = Some (put xs' ys') \<and>
           length xs' = n1 \<and> length ys' = n2 \<and>
           (\<forall>j \<in> (S \<union> {i}) \<union> set js. xs' ! nat j = f1 j \<and> ys' ! nat j = f2 j)"
  proof (rule Cons.IH [OF _ len _ inv])
    show "\<And>j xs ys. j \<in> set js \<Longrightarrow> length xs = n1 \<Longrightarrow> length ys = n2 \<Longrightarrow>
      body j (put xs ys) = Some (put (xs[nat j := f1 j]) (ys[nat j := f2 j]))"
      using Cons.prems(1) by simp
    show "\<forall>i\<in>set js. 0 \<le> i \<and> nat i < n1 \<and> nat i < n2"
      using Cons.prems(4) by simp
  qed
  then obtain xs' ys' where r: "for_each js body (put ?xs ?ys) = Some (put xs' ys')"
    "length xs' = n1" "length ys' = n2"
    "\<forall>j \<in> (S \<union> {i}) \<union> set js. xs' ! nat j = f1 j \<and> ys' ! nat j = f2 j"
    by blast
  have "for_each (i # js) body (put xs ys) = Some (put xs' ys')"
    using b r(1) by simp
  moreover have "\<forall>j \<in> S \<union> set (i # js). xs' ! nat j = f1 j \<and> ys' ! nat j = f2 j"
    using r(4) by auto
  ultimately show ?case using r(2,3) by blast
qed


lemma cell_bounds:
  fixes W H x y :: int
  assumes "0 < W" "0 < H" "- 1 \<le> y" "y < H" "- 1 \<le> x" "x < W" "0 \<le> x \<or> 0 \<le> y"
  shows "- int (nat (W * H)) \<le> x + y * W \<and> x + y * W < int (nat (W * H))"
proof -
  have H: "1 \<le> H" using assms by simp
  have "1 * W \<le> H * W"
    using H assms(1) by (intro mult_right_mono) simp_all
  then have WH: "W \<le> W * H" by (simp add: mult.commute)
  have "(y + 1) * W \<le> H * W"
    using assms by (intro mult_right_mono) simp_all
  then have up: "y * W + W \<le> W * H" by (simp add: algebra_simps)
  have "(- 1) * W \<le> y * W"
    using assms by (intro mult_right_mono) simp_all
  then have lo: "- W \<le> y * W" by simp
  have lo0: "0 \<le> y \<Longrightarrow> 0 \<le> y * W"
    using assms(1) by simp
  have "0 \<le> W * H" using WH assms(1) by simp
  then have N: "int (nat (W * H)) = W * H" by simp
  show ?thesis
    unfolding N using up lo lo0 WH assms by linarith
qed

lemma pos_nonneg: "0 \<le> j \<Longrightarrow> pos n j = nat j"
  by (simp add: pos_def)

lemma restore_row_step:
  assumes "length buf = N" "0 \<le> i" "nat i < length (top_pix t)" "nat i < length (bottom_pix t)"
    and "- int N \<le> left0 t + i - 1 + top0 t * W \<and> left0 t + i - 1 + top0 t * W < int N"
    and "- int N \<le> left0 t + i + bottom0 t * W \<and> left0 t + i + bottom0 t * W < int N"
  shows "restore_row W i (t\<lparr>buffer := buf\<rparr>) =
     Some (t\<lparr>buffer := buf[pos N (left0 t + i - 1 + top0 t * W) := top_pix t ! nat i,
                           pos N (left0 t + i + bottom0 t * W) := bottom_pix t ! nat i]\<rparr>)"
  using assms by (simp add: restore_row_def py_get_nat py_set_pos)

lemma restore_col_step:
  assumes "length buf = N" "0 \<le> i" "nat i < length (left_pix t)" "nat i < length (right_pix t)"
    and "- int N \<le> left0 t + (top0 t + i) * W \<and> left0 t + (top0 t + i) * W < int N"
    and "- int N \<le> right0 t + (top0 t + i - 1) * W \<and> right0 t + (top0 t + i - 1) * W < int N"
  shows "restore_col W i (t\<lparr>buffer := buf\<rparr>) =
     Some (t\<lparr>buffer := buf[pos N (left0 t + (top0 t + i) * W) := left_pix t ! nat i,
                           pos N (right0 t + (top0 t + i - 1) * W) := right_pix t ! nat i]\<rparr>)"
  using assms by (simp add: restore_col_def py_get_nat py_set_pos)

lemma store_row_step:
  assumes "length (buffer t) = N" "0 \<le> i" "nat i < length xs" "nat i < length ys"
    and "- int N \<le> left t + i - 1 + top_edge t * W \<and> left t + i - 1 + top_edge t * W < int N"
    and "- int N \<le> left t + i + bottom t * W \<and> left t + i + bottom t * W < int N"
  shows "store_row W i (t\<lparr>top_pix := xs, bottom_pix := ys\<rparr>) =
     Some (t\<lparr>top_pix := xs[nat i := buffer t ! pos N (left t + i - 1 + top_edge t * W)],
             bottom_pix := ys[nat i := buffer t ! pos N (left t + i + bottom t * W)]\<rparr>)"
  using assms by (simp add: store_row_def py_get_pos py_set_nat)

lemma store_col_step:
  assumes "length (buffer t) = N" "0 \<le> i" "nat i < length xs" "nat i < length ys"
    and "- int N \<le> left t + (top_edge t + i) * W \<and> left t + (top_edge t + i) * W < int N"
    and "- int N \<le> right t + (top_edge t + i - 1) * W \<and> right t + (top_edge t + i - 1) * W < int N"
  shows "store_col W i (t\<lparr>left_pix := xs, right_pix := ys\<rparr>) =
     Some (t\<lparr>left_pix := xs[nat i := buffer t ! pos N (left t + (top_edge t + i) * W)],
             right_pix := ys[nat i := buffer t ! pos N (right t + (top_edge t + i - 1) * W)]\<rparr>)"
  using assms by (simp add: store_col_def py_get_pos py_set_nat)


lemma restore_previous_writes_back:
  fixes t :: state
  assumes surf: "on_surface W H (left0 t) (right0 t) (top0 t) (bottom0 t)"
    and nz: "left0 t + right0 t + top0 t + bottom0 t \<noteq> 0"
    and len: "length (buffer t) = nat (W * H)"
    and lens: "length (top_pix t) = nat W" "length (bottom_pix t) = nat W"
      "length (left_pix t) = nat H" "length (right_pix t) = nat H"
    and rows: "\<forall>i\<in>set [0..right0 t - left0 t].
      top_pix t ! nat i = pre ! pos (nat (W * H)) (left0 t + i - 1 + top0 t * W) \<and>
      bottom_pix t ! nat i = pre ! pos (nat (W * H)) (left0 t + i + bottom0 t * W)"
    and cols: "\<forall>i\<in>set [0..bottom0 t - top0 t].
      left_pix t ! nat i = pre ! pos (nat (W * H)) (left0 t + (top0 t + i) * W) \<and>
      right_pix t ! nat i = pre ! pos (nat (W * H)) (right0 t + (top0 t + i - 1) * W)"
  shows "\<exists>buf'. restore_previous W t = Some (t\<lparr>buffer := buf'\<rparr>) \<and> length buf' = nat (W * H) \<and>
    (\<forall>x y. on_border (left0 t) (right0 t) (top0 t) (bottom0 t) x y \<longrightarrow>
       pixel_at W buf' x y = pixel_at W pre x y)"
proof -
  define N where "N = nat (W * H)"
  define l r tp b where "l = left0 t" and "r = right0 t" and "tp = top0 t" and "b = bottom0 t"
  define k1 k2 k3 k4 where "k1 = (\<lambda>i. pos N (l + i - 1 + tp * W))"
    and "k2 = (\<lambda>i. pos N (l + i + b * W))"
    and "k3 = (\<lambda>i. pos N (l + (tp + i) * W))"
    and "k4 = (\<lambda>i. pos N (r + (tp + i - 1) * W))"
  note defs = N_def l_def r_def tp_def b_def
  have s: "0 \<le> l" "l \<le> r" "r < W" "0 \<le> tp" "tp \<le> b" "b < H" "0 < W" "0 < H"
    using surf by (simp_all add: on_surface_def defs)
  have v1: "- int N \<le> l + i - 1 + tp * W \<and> l + i - 1 + tp * W < int N"
    if "i \<in> set [0..r - l]" for i
    unfolding N_def using that s by (intro cell_bounds) simp_all
  have v2: "- int N \<le> l + i + b * W \<and> l + i + b * W < int N"
    if "i \<in> set [0..r - l]" for i
    unfolding N_def using that s by (intro cell_bounds) simp_all
  have v3: "- int N \<le> l + (tp + i) * W \<and> l + (tp + i) * W < int N"
    if "i \<in> set [0..b - tp]" for i
    unfolding N_def using that s by (intro cell_bounds) simp_all
  have v4: "- int N \<le> r + (tp + i - 1) * W \<and> r + (tp + i - 1) * W < int N"
    if "i \<in> set [0..b - tp]" for i
    unfolding N_def using that s by (intro cell_bounds) simp_all
  have "\<exists>buf'. for_each [0..r - l] (restore_row W) (t\<lparr>buffer := buffer t\<rparr>) = Some (t\<lparr>buffer := buf'\<rparr>) \<and>
      length buf' = N \<and> (\<forall>p \<in> {} \<union> k1 ` set [0..r - l] \<union> k2 ` set [0..r - l]. buf' ! p = pre ! p)"
  proof (rule for_each_write_back)
    fix i and buf :: "byte list"
    assume i: "i \<in> set [0..r - l]" and "length buf = N"
    then show "restore_row W i (t\<lparr>buffer := buf\<rparr>) =
        Some (t\<lparr>buffer := buf[k1 i := pre ! k1 i, k2 i := pre ! k2 i]\<rparr>)"
      using v1 [OF i] v2 [OF i] rows s lens
      by (subst restore_row_step [where N = N]) (simp_all add: k1_def k2_def k3_def k4_def defs)
  next
    show "length (buffer t) = N" using len by (simp add: N_def)
    show "\<forall>p\<in>{}. buffer t ! p = pre ! p" by simp
    show "\<forall>i\<in>set [0..r - l]. k1 i < N \<and> k2 i < N"
      using v1 v2 by (simp add: k1_def k2_def k3_def k4_def pos_less)
  qed
  then obtain buf1 where b1:
    "for_each [0..r - l] (restore_row W) t = Some (t\<lparr>buffer := buf1\<rparr>)" "length buf1 = N"
    "\<forall>p \<in> k1 ` set [0..r - l] \<union> k2 ` set [0..r - l]. buf1 ! p = pre ! p"
    by auto
  have "\<exists>buf'. for_each [0..b - tp] (restore_col W) (t\<lparr>buffer := buf1\<rparr>) = Some (t\<lparr>buffer := buf'\<rparr>) \<and>
      length buf' = N \<and>
      (\<forall>p \<in> (k1 ` set [0..r - l] \<union> k2 ` set [0..r - l]) \<union> k3 ` set [0..b - tp] \<union> k4 ` set [0..b - tp].
          buf' ! p = pre ! p)"
  proof (rule for_each_write_back)
    fix i and buf :: "byte list"
    assume i: "i \<in> set [0..b - tp]" and "length buf = N"
    then show "restore_col W i (t\<lparr>buffer := buf\<rparr>) =
        Some (t\<lparr>buffer := buf[k3 i := pre ! k3 i, k4 i := pre ! k4 i]\<rparr>)"
      using v3 [OF i] v4 [OF i] cols s lens
      by (subst restore_col_step [where N = N]) (simp_all add: k1_def k2_def k3_def k4_def defs)
  next
    show "length buf1 = N" by (rule b1(2))
    show "\<forall>p\<in>k1 ` set [0..r - l] \<union> k2 ` set [0..r - l]. buf1 ! p = pre ! p" by (rule b1(3))
    show "\<forall>i\<in>set [0..b - tp]. k3 i < N \<and> k4 i < N"
      using v3 v4 by (simp add: k1_def k2_def k3_def k4_def pos_less)
  qed
  then obtain buf2 where b2:
    "for_each [0..b - tp] (restore_col W) (t\<lparr>buffer := buf1\<rparr>) = Some (t\<lparr>buffer := buf2\<rparr>)"
    "length buf2 = N"
    "\<forall>p \<in> (k1 ` set [0..r - l] \<union> k2 ` set [0..r - l]) \<union> k3 ` set [0..b - tp] \<union> k4 ` set [0..b - tp].
          buf2 ! p = pre ! p"
    by auto
  have res: "restore_previous W t = Some (t\<lparr>buffer := buf2\<rparr>)"
    using nz b1(1) b2(1) by (simp add: restore_previous_def defs [symmetric])
  have cover: "pixel_at W buf2 x y = pixel_at W pre x y" if bd: "on_border l r tp b x y" for x y
  proof -
    from bd have xy: "l \<le> x" "x \<le> r" "tp \<le> y" "y \<le> b"
      and edge: "x = l \<or> x = r \<or> y = tp \<or> y = b"
      by (simp_all add: on_border_def)
    have nn: "0 \<le> x + y * W" using xy s by simp
    have "nat (x + y * W) \<in> (k1 ` set [0..r - l] \<union> k2 ` set [0..r - l]) \<union> k3 ` set [0..b - tp] \<union> k4 ` set [0..b - tp]"
    proof -
      consider "y = b" | "x = l" | "y < b" "x = r" | "y = tp" "x < r"
        using edge xy by linarith
      then show ?thesis
      proof cases
        case 1
        have "k2 (x - l) = nat (x + y * W)"
          using nn 1 by (simp add: k1_def k2_def k3_def k4_def pos_nonneg)
        moreover have "x - l \<in> set [0..r - l]" using xy by simp
        ultimately have "nat (x + y * W) \<in> k2 ` set [0..r - l]"
          by (metis imageI)
        then show ?thesis by simp
      next
        case 2
        have "k3 (y - tp) = nat (x + y * W)"
          using nn 2 by (simp add: k1_def k2_def k3_def k4_def pos_nonneg)
        moreover have "y - tp \<in> set [0..b - tp]" using xy by simp
        ultimately have "nat (x + y * W) \<in> k3 ` set [0..b - tp]"
          by (metis imageI)
        then show ?thesis by simp
      next
        case 3
        have "k4 (y - tp + 1) = nat (x + y * W)"
          using nn 3 by (simp add: k1_def k2_def k3_def k4_def pos_nonneg)
        moreover have "y - tp + 1 \<in> set [0..b - tp]" using xy 3 by simp
        ultimately have "nat (x + y * W) \<in> k4 ` set [0..b - tp]"
          by (metis imageI)
        then show ?thesis by simp
      next
        case 4
        have "k1 (x - l + 1) = nat (x + y * W)"
          using nn 4 by (simp add: k1_def k2_def k3_def k4_def pos_nonneg)
        moreover have "x - l + 1 \<in> set [0..r - l]" using xy 4 by simp
        ultimately have "nat (x + y * W) \<in> k1 ` set [0..r - l]"
          by (metis imageI)
        then show ?thesis by simp
      qed
    qed
    with b2(3) show ?thesis by (simp add: pixel_at_def)
  qed
  show ?thesis
    using res b2(2) cover by (auto simp: defs)
qed


lemma store_outline_saves:
  fixes t :: state
  assumes surf: "on_surface W H (left t) (right t) (top_edge t) (bottom t)"
    and len: "length (buffer t) = nat (W * H)"
    and lens: "length (top_pix t) = nat W" "length (bottom_pix t) = nat W"
      "length (left_pix t) = nat H" "length (right_pix t) = nat H"
  shows "\<exists>tp bp lp rp.
    store_outline W t = Some (t\<lparr>top_pix := tp, bottom_pix := bp, left_pix := lp, right_pix := rp\<rparr>) \<and>
    length tp = nat W \<and> length bp = nat W \<and> length lp = nat H \<and> length rp = nat H \<and>
    (\<forall>i\<in>set [0..right t - left t].
      tp ! nat i = buffer t ! pos (nat (W * H)) (left t + i - 1 + top_edge t * W) \<and>
      bp ! nat i = buffer t ! pos (nat (W * H)) (left t + i + bottom t * W)) \<and>
    (\<forall>i\<in>set [0..bottom t - top_edge t].
      lp ! nat i = buffer t ! pos (nat (W * H)) (left t + (top_edge t + i) * W) \<and>
      rp ! nat i = buffer t ! pos (nat (W * H)) (right t + (top_edge t + i - 1) * W))"
proof -
  define N where "N = nat (W * H)"
  define l r tp b where "l = left t" and "r = right t" and "tp = top_edge t" and "b = bottom t"
  define f1 f2 f3 f4 where "f1 = (\<lambda>i. buffer t ! pos N (l + i - 1 + tp * W))"
    and "f2 = (\<lambda>i. buffer t ! pos N (l + i + b * W))"
    and "f3 = (\<lambda>i. buffer t ! pos N (l + (tp + i) * W))"
    and "f4 = (\<lambda>i. buffer t ! pos N (r + (tp + i - 1) * W))"
  note defs = N_def l_def r_def tp_def b_def
  note fdefs = f1_def f2_def f3_def f4_def
  have s: "0 \<le> l" "l \<le> r" "r < W" "0 \<le> tp" "tp \<le> b" "b < H" "0 < W" "0 < H"
    using surf by (simp_all add: on_surface_def defs)
  have v1: "- int N \<le> l + i - 1 + tp * W \<and> l + i - 1 + tp * W < int N"
    if "i \<in> set [0..r - l]" for i
    unfolding N_def using that s by (intro cell_bounds) simp_all
  have v2: "- int N \<le> l + i + b * W \<and> l + i + b * W < int N"
    if "i \<in> set [0..r - l]" for i
    unfolding N_def using that s by (intro cell_bounds) simp_all
  have v3: "- int N \<le> l + (tp + i) * W \<and> l + (tp + i) * W < int N"
    if "i \<in> set [0..b - tp]" for i
    unfolding N_def using that s by (intro cell_bounds) simp_all
  have v4: "- int N \<le> r + (tp + i - 1) * W \<and> r + (tp + i - 1) * W < int N"
    if "i \<in> set [0..b - tp]" for i
    unfolding N_def using that s by (intro cell_bounds) simp_all
  have "\<exists>xs' ys'. for_each [0..r - l] (store_row W) (t\<lparr>top_pix := top_pix t, bottom_pix := bottom_pix t\<rparr>)
        = Some (t\<lparr>top_pix := xs', bottom_pix := ys'\<rparr>) \<and>
      length xs' = nat W \<and> length ys' = nat W \<and>
      (\<forall>i \<in> {} \<union> set [0..r - l]. xs' ! nat i = f1 i \<and> ys' ! nat i = f2 i)"
  proof (rule for_each_store)
    fix i and xs ys :: "byte list"
    assume i: "i \<in> set [0..r - l]" and "length xs = nat W" "length ys = nat W"
    then show "store_row W i (t\<lparr>top_pix := xs, bottom_pix := ys\<rparr>) =
        Some (t\<lparr>top_pix := xs[nat i := f1 i], bottom_pix := ys[nat i := f2 i]\<rparr>)"
      using v1 [OF i] v2 [OF i] s len
      by (subst store_row_step [where N = N]) (simp_all add: fdefs defs)
  next
    show "length (top_pix t) = nat W" "length (bottom_pix t) = nat W" by (rule lens)+
    show "\<forall>i\<in>set [0..r - l]. 0 \<le> i \<and> nat i < nat W \<and> nat i < nat W"
      using s by simp
    show "\<forall>i\<in>{}. 0 \<le> i \<and> top_pix t ! nat i = f1 i \<and> bottom_pix t ! nat i = f2 i"
      by simp
  qed
  then obtain xs ys where r1:
    "for_each [0..r - l] (store_row W) t = Some (t\<lparr>top_pix := xs, bottom_pix := ys\<rparr>)"
    "length xs = nat W" "length ys = nat W"
    "\<forall>i \<in> set [0..r - l]. xs ! nat i = f1 i \<and> ys ! nat i = f2 i"
    by auto
  define t1 where "t1 = t\<lparr>top_pix := xs, bottom_pix := ys\<rparr>"
  have "\<exists>xs' ys'. for_each [0..b - tp] (store_col W) (t1\<lparr>left_pix := left_pix t, right_pix := right_pix t\<rparr>)
        = Some (t1\<lparr>left_pix := xs', right_pix := ys'\<rparr>) \<and>
      length xs' = nat H \<and> length ys' = nat H \<and>
      (\<forall>i \<in> {} \<union> set [0..b - tp]. xs' ! nat i = f3 i \<and> ys' ! nat i = f4 i)"
  proof (rule for_each_store)
    fix i and xs ys :: "byte list"
    assume i: "i \<in> set [0..b - tp]" and "length xs = nat H" "length ys = nat H"
    then show "store_col W i (t1\<lparr>left_pix := xs, right_pix := ys\<rparr>) =
        Some (t1\<lparr>left_pix := xs[nat i := f3 i], right_pix := ys[nat i := f4 i]\<rparr>)"
      using v3 [OF i] v4 [OF i] s len
      by (subst store_col_step [where N = N]) (simp_all add: fdefs defs t1_def)
  next
    show "length (left_pix t) = nat H" "length (right_pix t) = nat H" by (rule lens)+
    show "\<forall>i\<in>set [0..b - tp]. 0 \<le> i \<and> nat i < nat H \<and> nat i < nat H"
      using s by simp
    show "\<forall>i\<in>{}. 0 \<le> i \<and> left_pix t ! nat i = f3 i \<and> right_pix t ! nat i = f4 i"
      by simp
  qed
  then obtain ls rs where r2:
    "for_each [0..b - tp] (store_col W) t1 = Some (t1\<lparr>left_pix := ls, right_pix := rs\<rparr>)"
    "length ls = nat H" "length rs = nat H"
    "\<forall>i \<in> set [0..b - tp]. ls ! nat i = f3 i \<and> rs ! nat i = f4 i"
    by (auto simp: t1_def)
  have "store_outline W t = Some (t\<lparr>top_pix := xs, bottom_pix := ys, left_pix := ls, right_pix := rs\<rparr>)"
    using r1(1) r2(1) by (simp add: store_outline_def defs [symmetric] t1_def)
  with r1(2-4) r2(2-4) show ?thesis
    unfolding fdefs defs by blast
qed

lemma length_display_pixel: "length (display_pixel W H pen buf x y) = length buf"
  by (simp add: display_pixel_def)

lemma length_foldl_pixel:
  "(\<And>b x. length (f b x) = length b) \<Longrightarrow> length (foldl f buf xs) = length buf"
  by (induction xs arbitrary: buf) simp_all

lemma length_display_line_row: "length (display_line_row W H pen x1 x2 y buf) = length buf"
  unfolding display_line_row_def by (rule length_foldl_pixel) (rule length_display_pixel)

lemma length_display_line_col: "length (display_line_col W H pen x y1 y2 buf) = length buf"
  unfolding display_line_col_def by (rule length_foldl_pixel) (rule length_display_pixel)

lemma draw_outline_frame:
  "draw_outline W H s = s\<lparr>buffer := buffer (draw_outline W H s)\<rparr> \<and>
   length (buffer (draw_outline W H s)) = length (buffer s)"
  by (simp add: draw_outline_def Let_def length_display_line_row length_display_line_col)

lemma restore_row_frame:
  "restore_row W i s = Some s' \<Longrightarrow> \<exists>buf. s' = s\<lparr>buffer := buf\<rparr> \<and> length buf = length (buffer s)"
  by (auto simp: restore_row_def py_set_def py_get_def split: bind_splits)

lemma restore_col_frame:
  "restore_col W i s = Some s' \<Longrightarrow> \<exists>buf. s' = s\<lparr>buffer := buf\<rparr> \<and> length buf = length (buffer s)"
  by (auto simp: restore_col_def py_set_def py_get_def split: bind_splits)

lemma for_each_frame:
  fixes s :: state
  assumes "\<And>i s s'. body i s = Some s' \<Longrightarrow> \<exists>buf. s' = s\<lparr>buffer := buf\<rparr> \<and> length buf = length (buffer s)"
    and "for_each js body s = Some s'"
  shows "\<exists>buf. s' = s\<lparr>buffer := buf\<rparr> \<and> length buf = length (buffer s)"
  using assms(2)
proof (induction js arbitrary: s)
  case Nil
  then have "s' = s\<lparr>buffer := buffer s\<rparr>" by simp
  then show ?case by blast
next
  case (Cons i js)
  from Cons.prems obtain s1 where s1: "body i s = Some s1" "for_each js body s1 = Some s'"
    by (auto split: option.splits)
  from assms(1) [OF s1(1)] obtain buf1 where b1: "s1 = s\<lparr>buffer := buf1\<rparr>" "length buf1 = length (buffer s)"
    by blast
  from Cons.IH [OF s1(2)] obtain buf where b: "s' = s1\<lparr>buffer := buf\<rparr>" "length buf = length (buffer s1)"
    by blast
  from b1 b have "s' = s\<lparr>buffer := buf\<rparr> \<and> length buf = length (buffer s)"
    by simp
  then show ?case by blast
qed

lemma restore_previous_frame:
  assumes "restore_previous W s = Some s'"
  shows "\<exists>buf. s' = s\<lparr>buffer := buf\<rparr> \<and> length buf = length (buffer s)"
proof (cases "left0 s + right0 s + top0 s + bottom0 s \<noteq> 0")
  case True
  with assms obtain s1 where s1:
    "for_each [0..right0 s - left0 s + 1 - 1] (restore_row W) s = Some s1"
    "for_each [0..bottom0 s - top0 s + 1 - 1] (restore_col W) s1 = Some s'"
    by (auto simp: restore_previous_def split: bind_splits)
  from s1(1) have "\<exists>buf. s1 = s\<lparr>buffer := buf\<rparr> \<and> length buf = length (buffer s)"
    by (rule for_each_frame [rotated]) (erule restore_row_frame)
  then obtain buf1 where b1: "s1 = s\<lparr>buffer := buf1\<rparr>" "length buf1 = length (buffer s)"
    by blast
  from s1(2) have "\<exists>buf. s' = s1\<lparr>buffer := buf\<rparr> \<and> length buf = length (buffer s1)"
    by (rule for_each_frame [rotated]) (erule restore_col_frame)
  then obtain buf where b: "s' = s1\<lparr>buffer := buf\<rparr>" "length buf = length (buffer s1)"
    by blast
  from b1 b have "s' = s\<lparr>buffer := buf\<rparr> \<and> length buf = length (buffer s)"
    by simp
  then show ?thesis by blast
next
  case False
  with assms have "s' = s\<lparr>buffer := buffer s\<rparr>"
    by (simp add: restore_previous_def)
  then show ?thesis by blast
qed


lemma read_cursor_frame:
  "left0 (read_cursor W H vx vy vz s) = left0 s \<and> right0 (read_cursor W H vx vy vz s) = right0 s \<and>
   top0 (read_cursor W H vx vy vz s) = top0 s \<and> bottom0 (read_cursor W H vx vy vz s) = bottom0 s \<and>
   buffer (read_cursor W H vx vy vz s) = buffer s \<and>
   top_pix (read_cursor W H vx vy vz s) = top_pix s \<and>
   bottom_pix (read_cursor W H vx vy vz s) = bottom_pix s \<and>
   left_pix (read_cursor W H vx vy vz s) = left_pix s \<and>
   right_pix (read_cursor W H vx vy vz s) = right_pix s"
  by (simp add: read_cursor_def Let_def)


text \<open>
  Claim C2 says that after an outline is drawn and the region then changes, the restore
  step writes every border pixel of the first rectangle back to the value it had before
  that rectangle was drawn, and that each corner pixel is saved and restored exactly
  once, the top and bottom edges owning the corners and the left and right edges
  excluding them. On the seeded 4 by 4 surface the first rectangle has its top-left
  corner at pixel \<open>(1, 1)\<close>, the only pixel holding the byte 15: after the cycle both
  \<open>top_pix[1]\<close> and \<open>left_pix[0]\<close> hold 15, so the left edge saves the corner as well.
  The second rectangle is the single pixel \<open>(0, 0)\<close>, which held 10 when it was drawn
  over; its four coordinates add up to 0, the value that stands for "no previous
  cursor", so the restore step of the next cycle leaves the pixel at the pen's 255.
\<close>

theorem restore_law_counterexample:
  "distinct (buffer seeded_state) \<and> pixel_at 4 (buffer seeded_state) 1 1 = 15 \<and>
   MoveCursor True 4 4 1.65 1.65 1.65 seeded_state \<noteq> None \<and>
   MoveCursor True 4 4 0 3.3 0 first_outline \<noteq> None \<and>
   left first_outline = 1 \<and> top_edge first_outline = 1 \<and>
   top_pix first_outline ! 1 = 15 \<and> left_pix first_outline ! 0 = 15 \<and>
   left second_outline = 0 \<and> right second_outline = 0 \<and>
   top_edge second_outline = 0 \<and> bottom second_outline = 0 \<and>
   on_border 0 0 0 0 0 0 \<and>
   pixel_at 4 (buffer (the (restore_previous 4 (read_cursor 4 4 0 3.3 0 first_outline)))) 0 0 = 10 \<and>
   pixel_at 4 (buffer second_outline) 0 0 = 255 \<and>
   pixel_at 4 (buffer (the (restore_previous 4 (read_cursor 4 4 1.65 1.65 1.65 second_outline)))) 0 0 = 255"
  by code_simp


text \<open>
  Claim C2 as amended. Let a \<open>MoveCursor\<close> cycle draw a rectangle that lies on the surface,
  differs from the previous one and whose four coordinates do not add up to 0, and let
  \<open>p\<close> be the state just before the rectangle's pixels are stored and the outline is
  drawn (the state the restore of the previous outline leaves). Then the cycle succeeds,
  and the restore step of the next cycle, whatever the potentiometers read then,
  succeeds and leaves every border pixel of the rectangle with the byte it had in \<open>p\<close>.
\<close>

theorem MoveCursor_restores_border:
  fixes s :: state
  assumes lens: "length (buffer s) = nat (W * H)" "length (top_pix s) = nat W"
      "length (bottom_pix s) = nat W" "length (left_pix s) = nat H" "length (right_pix s) = nat H"
    and c: "c = read_cursor W H vx vy vz s"
    and surf: "on_surface W H (left c) (right c) (top_edge c) (bottom c)"
    and nz: "left c + right c + top_edge c + bottom c \<noteq> 0"
    and changed: "left0 s \<noteq> left c \<or> right0 s \<noteq> right c \<or> top0 s \<noteq> top_edge c \<or> bottom0 s \<noteq> bottom c"
    and prev: "restore_previous W c = Some p"
  shows "\<exists>s1. MoveCursor True W H vx vy vz s = Some s1 \<and>
    (\<forall>vx' vy' vz'. \<exists>s2. restore_previous W (read_cursor W H vx' vy' vz' s1) = Some s2 \<and>
       (\<forall>x y. on_border (left c) (right c) (top_edge c) (bottom c) x y \<longrightarrow>
          pixel_at W (buffer s2) x y = pixel_at W (buffer p) x y))"
proof -
  note cf = read_cursor_frame [of W H vx vy vz s, folded c]
  from restore_previous_frame [OF prev] obtain pb where
    p: "p = c\<lparr>buffer := pb\<rparr>" and pb: "length pb = length (buffer c)"
    by blast
  have plen: "length (buffer p) = nat (W * H)" "length (top_pix p) = nat W"
    "length (bottom_pix p) = nat W" "length (left_pix p) = nat H" "length (right_pix p) = nat H"
    using lens cf p pb by simp_all
  have psurf: "on_surface W H (left p) (right p) (top_edge p) (bottom p)"
    using surf p by simp
  from store_outline_saves [OF psurf plen] obtain tp bp lp rp where
    st: "store_outline W p = Some (p\<lparr>top_pix := tp, bottom_pix := bp, left_pix := lp, right_pix := rp\<rparr>)"
    and sl: "length tp = nat W" "length bp = nat W" "length lp = nat H" "length rp = nat H"
    and rows: "\<forall>i\<in>set [0..right p - left p].
      tp ! nat i = buffer p ! pos (nat (W * H)) (left p + i - 1 + top_edge p * W) \<and>
      bp ! nat i = buffer p ! pos (nat (W * H)) (left p + i + bottom p * W)"
    and cols: "\<forall>i\<in>set [0..bottom p - top_edge p].
      lp ! nat i = buffer p ! pos (nat (W * H)) (left p + (top_edge p + i) * W) \<and>
      rp ! nat i = buffer p ! pos (nat (W * H)) (right p + (top_edge p + i - 1) * W)"
    by blast
  define q where "q = p\<lparr>top_pix := tp, bottom_pix := bp, left_pix := lp, right_pix := rp\<rparr>"
  define d where "d = draw_outline W H q"
  define s1 where "s1 = d\<lparr>left0 := left d, right0 := right d, top0 := top_edge d, bottom0 := bottom d\<rparr>"
  have d: "d = q\<lparr>buffer := buffer d\<rparr>" "length (buffer d) = length (buffer q)"
    using draw_outline_frame [of W H q] by (simp_all add: d_def)
  have run: "MoveCursor True W H vx vy vz s = Some s1"
    using changed cf prev st
    by (simp add: MoveCursor_def update_cursor_def c [symmetric] q_def [symmetric]
        d_def [symmetric] s1_def [symmetric] Let_def)
  have reg: "left d = left c" "right d = right c" "top_edge d = top_edge c" "bottom d = bottom c"
    by (subst d(1), simp add: q_def p)+
  have saved: "top_pix d = tp" "bottom_pix d = bp" "left_pix d = lp" "right_pix d = rp"
    by (subst d(1), simp add: q_def)+
  have dlen: "length (buffer d) = nat (W * H)"
    using d(2) plen(1) by (simp add: q_def)
  have after: "\<exists>s2. restore_previous W (read_cursor W H vx' vy' vz' s1) = Some s2 \<and>
       (\<forall>x y. on_border (left c) (right c) (top_edge c) (bottom c) x y \<longrightarrow>
          pixel_at W (buffer s2) x y = pixel_at W (buffer p) x y)" for vx' vy' vz'
  proof -
    define t where "t = read_cursor W H vx' vy' vz' s1"
    note tf = read_cursor_frame [of W H vx' vy' vz' s1, folded t_def]
    have t0: "left0 t = left c" "right0 t = right c" "top0 t = top_edge c" "bottom0 t = bottom c"
      using tf reg by (simp_all add: s1_def)
    have tb: "buffer t = buffer d" "top_pix t = tp" "bottom_pix t = bp" "left_pix t = lp" "right_pix t = rp"
      using tf saved by (simp_all add: s1_def)
    have pc: "left p = left c" "right p = right c" "top_edge p = top_edge c" "bottom p = bottom c"
      using p by simp_all
    have "\<exists>buf'. restore_previous W t = Some (t\<lparr>buffer := buf'\<rparr>) \<and> length buf' = nat (W * H) \<and>
      (\<forall>x y. on_border (left0 t) (right0 t) (top0 t) (bottom0 t) x y \<longrightarrow>
         pixel_at W buf' x y = pixel_at W (buffer p) x y)"
    proof (rule restore_previous_writes_back)
      show "on_surface W H (left0 t) (right0 t) (top0 t) (bottom0 t)"
        using surf t0 by simp
      show "left0 t + right0 t + top0 t + bottom0 t \<noteq> 0"
        using nz t0 by simp
      show "length (buffer t) = nat (W * H)"
        using tb dlen by simp
      show "length (top_pix t) = nat W" "length (bottom_pix t) = nat W"
        "length (left_pix t) = nat H" "length (right_pix t) = nat H"
        using tb sl by simp_all
      show "\<forall>i\<in>set [0..right0 t - left0 t].
        top_pix t ! nat i = buffer p ! pos (nat (W * H)) (left0 t + i - 1 + top0 t * W) \<and>
        bottom_pix t ! nat i = buffer p ! pos (nat (W * H)) (left0 t + i + bottom0 t * W)"
        using rows unfolding t0 tb pc .
      show "\<forall>i\<in>set [0..bottom0 t - top0 t].
        left_pix t ! nat i = buffer p ! pos (nat (W * H)) (left0 t + (top0 t + i) * W) \<and>
        right_pix t ! nat i = buffer p ! pos (nat (W * H)) (right0 t + (top0 t + i - 1) * W)"
        using cols unfolding t0 tb pc .
    qed
    then obtain buf' where "restore_previous W t = Some (t\<lparr>buffer := buf'\<rparr>)"
      "\<forall>x y. on_border (left c) (right c) (top_edge c) (bottom c) x y \<longrightarrow>
         pixel_at W buf' x y = pixel_at W (buffer p) x y"
      unfolding t0 by blast
    then show ?thesis
      unfolding t_def by auto
  qed
  from run after show ?thesis by blast
qed


theorem MoveCursor_restores_border_witness:
  "on_surface 240 240 (left (read_cursor 240 240 1.65 1.65 1.65 (init_state 240 240)))
     (right (read_cursor 240 240 1.65 1.65 1.65 (init_state 240 240)))
     (top_edge (read_cursor 240 240 1.65 1.65 1.65 (init_state 240 240)))
     (bottom (read_cursor 240 240 1.65 1.65 1.65 (init_state 240 240))) \<and>
   left (read_cursor 240 240 1.65 1.65 1.65 (init_state 240 240)) = 60 \<and>
   right (read_cursor 240 240 1.65 1.65 1.65 (init_state 240 240)) = 180 \<and>
   top_edge (read_cursor 240 240 1.65 1.65 1.65 (init_state 240 240)) = 60 \<and>
   bottom (read_cursor 240 240 1.65 1.65 1.65 (init_state 240 240)) = 180 \<and>
   left0 (init_state 240 240) \<noteq> 60 \<and>
   restore_previous 240 (read_cursor 240 240 1.65 1.65 1.65 (init_state 240 240))
     = Some (read_cursor 240 240 1.65 1.65 1.65 (init_state 240 240)) \<and>
   on_border 60 180 60 180 60 60 \<and>
   (\<exists>s1. MoveCursor True 240 240 1.65 1.65 1.65 (init_state 240 240) = Some s1 \<and>
     (\<forall>vx' vy' vz'. \<exists>s2. restore_previous 240 (read_cursor 240 240 vx' vy' vz' s1) = Some s2 \<and>
       (\<forall>x y. on_border 60 180 60 180 x y \<longrightarrow>
          pixel_at 240 (buffer s2) x y =
          pixel_at 240 (buffer (read_cursor 240 240 1.65 1.65 1.65 (init_state 240 240))) x y)))"
proof -
  define c where "c = read_cursor 240 240 1.65 1.65 1.65 (init_state 240 240)"
  have r: "left c = 60" "right c = 180" "top_edge c = 60" "bottom c = 180"
    by (simp_all add: c_def read_cursor_def Let_def getZoomLevel_def getCursorX_def
        getCursorY_def py_int_def)
  have p0: "left0 c = 0" "right0 c = 0" "top0 c = 0" "bottom0 c = 0"
    by (simp_all add: c_def read_cursor_def Let_def init_state_def)
  have i0: "left0 (init_state 240 240) = 0"
    by (simp add: init_state_def)
  have lens: "length (buffer (init_state 240 240)) = nat (240 * 240)"
    "length (top_pix (init_state 240 240)) = nat 240"
    "length (bottom_pix (init_state 240 240)) = nat 240"
    "length (left_pix (init_state 240 240)) = nat 240"
    "length (right_pix (init_state 240 240)) = nat 240"
    by (simp_all add: init_state_def)
  have surf: "on_surface 240 240 (left c) (right c) (top_edge c) (bottom c)"
    by (simp add: r on_surface_def)
  have nz: "left c + right c + top_edge c + bottom c \<noteq> 0"
    by (simp add: r)
  have changed: "left0 (init_state 240 240) \<noteq> left c \<or> right0 (init_state 240 240) \<noteq> right c \<or>
      top0 (init_state 240 240) \<noteq> top_edge c \<or> bottom0 (init_state 240 240) \<noteq> bottom c"
    by (simp add: r i0)
  have prev: "restore_previous 240 c = Some c"
    by (simp add: restore_previous_def p0)
  have bd: "on_border 60 180 60 180 60 60"
    by (simp add: on_border_def)
  from MoveCursor_restores_border [OF lens c_def surf nz changed prev]
  show ?thesis
    using surf prev bd i0 unfolding r unfolding c_def [symmetric] r by simp
qed


section \<open>Properties of the navigation commands\<close>























text \<open>
  Claim C7. \<open>ChangeRez\<close> with the button pressed, applied twice from any state (whatever
  \<open>isHiRez\<close> is), returns \<open>MAX_ITER\<close> to its original value: doubling then halving, or
  halving then doubling, is the identity on the number.
\<close>

theorem ChangeRez_twice:
  "MAX_ITER (snd (ChangeRez True (snd (ChangeRez True s)))) = MAX_ITER s"
  by (simp add: ChangeRez_def Let_def)

text \<open>
  Claim C8. \<open>ChangeRez\<close> leaves the four viewport bounds unchanged; the state after it
  differs from the state before in \<open>isHiRez\<close> and \<open>MAX_ITER\<close> at most.
\<close>

theorem ChangeRez_frame:
  "realStart (snd (ChangeRez pressed s)) = realStart s \<and>
   realEnd (snd (ChangeRez pressed s)) = realEnd s \<and>
   imStart (snd (ChangeRez pressed s)) = imStart s \<and>
   imEnd (snd (ChangeRez pressed s)) = imEnd s \<and>
   snd (ChangeRez pressed s) =
     s\<lparr>MAX_ITER := MAX_ITER (snd (ChangeRez pressed s)),
       isHiRez := isHiRez (snd (ChangeRez pressed s))\<rparr>"
  by (simp add: ChangeRez_def Let_def)

end
